theory Spec2Isabelle
  imports Complex_Main
begin

section \<open>Data model of the Task service\<close>

text \<open>
  The Task service of \<^verbatim>\<open>src/Task_Service/main.py\<close> keeps one table.  A row is
  \<^verbatim>\<open>class Task(db.Model)\<close>: an integer primary key \<^verbatim>\<open>id\<close>, a \<^verbatim>\<open>title\<close> declared
  \<^verbatim>\<open>db.String(100)\<close> and a \<^verbatim>\<open>user_id\<close> declared \<^verbatim>\<open>db.Integer\<close>.  The primary key is
  called \<open>task_id\<close> here, because \<open>id\<close> is the identity function of HOL.

  The database is SQLite, whose columns are not strictly typed.  The title
  column has TEXT affinity and always holds a text, of any length.  The
  \<^verbatim>\<open>user_id\<close> column has INTEGER affinity: it holds an integer whenever the value
  stored can be read as one, and otherwise the real or the text that was
  stored (a real without fraction is never kept as a real).

  The table is the list of its rows in the order in which an unordered
  \<^verbatim>\<open>SELECT\<close> returns them (SQLite scans in row id order, and a new row gets the
  largest id, so an insert appends).
\<close>

datatype sql_value = SqlInt int | SqlReal rat | SqlText string

record task =
  task_id :: int
  title :: string
  user_id :: sql_value

type_synonym store = "task list"

text \<open>
  What \<^verbatim>\<open>requests.get\<close> gives back: it raises (connection refused, timeout, ...)
  with a message \<^verbatim>\<open>str(e)\<close>, or it returns a response with a status code and a
  body.  The body is kept as the outcome of \<^verbatim>\<open>response.json()\<close>: the decoding error
  message, or the decoded JSON value.
\<close>

datatype json =
    JNull
  | JBool bool
  | JNum int
  | JFloat rat
  | JStr string
  | JArr "json list"
  | JObj "(string \<times> json) list"

datatype peer_body = NotJson string | Json json

datatype peer_result = PeerRaises string | PeerResponse int peer_body

text \<open>
  A store call may raise (the spec's StoreError).  A request is run against a
  fault: the index, counted from 0 within the request, of the store call that
  raises, or \<open>None\<close> when the store works throughout.
\<close>

type_synonym fault = "nat option"

definition raises_at :: "fault \<Rightarrow> nat \<Rightarrow> bool" where
  "raises_at f k = (f = Some k)"

section \<open>Responses\<close>

text \<open>
  Each handler returns \<^verbatim>\<open>jsonify(...), code\<close>.  The JSON documents are kept as
  constructors, one for each shape the handlers build; the status code is the
  second component.  \<open>Unhandled\<close> is the error page Flask sends, with status 500,
  when a handler lets an exception escape; \<open>Aborted\<close> is the page it sends when it
  aborts a request itself.
\<close>

datatype metric = MZero | MRound2 nat nat

record tasks_section =
  total_tasks :: nat
  users_with_tasks :: nat
  recent_tasks :: "task list"
  top_productive_users :: "(sql_value \<times> nat) list"

record users_section =
  total_users :: nat
  error :: "string option"

record metrics_section =
  avg_tasks_per_user :: metric
  avg_tasks_per_active_user :: metric

record system_section =
  status :: string
  task_service :: string
  user_service :: string

record stats =
  timestamp :: string
  tasks :: tasks_section
  users :: users_section
  productivity_metrics :: metrics_section
  system :: system_section

datatype payload =
    ErrInvalidData
  | ErrPeerConnection string
  | ErrInvalidUser
  | TaskJson task
  | TaskList "task list"
  | MsgTaskDeleted int
  | ErrTaskNotFound
  | MsgDeleted nat
  | MsgDeletedSpecific nat
  | ErrTaskIdsRequired
  | ErrTaskIdsNotList
  | ErrException
  | ErrStatsFailed
  | Stats stats
  | Unhandled
  | Aborted

type_synonym response = "payload \<times> int"

section \<open>POST /tasks\<close>

text \<open>
  What \<^verbatim>\<open>request.get_json()\<close> does with the request.  Flask may abort the request
  there, with 415 when the content type is not JSON and with 400 when the body
  does not decode; otherwise it returns the decoded document, which may be any
  JSON value (\<open>JNull\<close> is Python's \<^verbatim>\<open>None\<close>).  An object is kept as the items of
  the decoded dictionary.  Numbers with a fraction or an exponent decode to
  floats; only finite ones are modelled.
\<close>

datatype get_json = UnsupportedMediaType | BadRequest | Returns json

text \<open>Python's truth value, and \<^verbatim>\<open>dict.get\<close> with its default \<^verbatim>\<open>None\<close>.\<close>

fun truthy :: "json \<Rightarrow> bool" where
  "truthy JNull = False"
| "truthy (JBool b) = b"
| "truthy (JNum n) = (n \<noteq> 0)"
| "truthy (JFloat x) = (x \<noteq> 0)"
| "truthy (JStr s) = (s \<noteq> [])"
| "truthy (JArr xs) = (xs \<noteq> [])"
| "truthy (JObj kvs) = (kvs \<noteq> [])"

definition dict_get :: "(string \<times> json) list \<Rightarrow> string \<Rightarrow> json" where
  "dict_get kvs k = (case map_of kvs k of None \<Rightarrow> JNull | Some v \<Rightarrow> v)"

text \<open>
  The id SQLite gives a new row of a table whose key is \<^verbatim>\<open>INTEGER PRIMARY KEY\<close>:
  1 in an empty table, otherwise one more than the largest id in the table.
\<close>

definition next_id :: "store \<Rightarrow> int" where
  "next_id s = (if s = [] then 1 else Max (set (map task_id s)) + 1)"

text \<open>
  What the \<^verbatim>\<open>INSERT\<close> stores.  SQLAlchemy passes the two Python values to the
  \<^verbatim>\<open>sqlite3\<close> driver as they are.  The driver binds \<^verbatim>\<open>int\<close> (and \<^verbatim>\<open>bool\<close>, a
  subclass), \<^verbatim>\<open>float\<close> and \<^verbatim>\<open>str\<close>; it raises for a list or a dictionary, and for
  an integer outside the signed 64-bit range.  The column then applies its
  affinity.  \<^verbatim>\<open>title VARCHAR(100)\<close> has TEXT affinity: a number is stored as its
  text, a string as it is, whatever its length.  \<^verbatim>\<open>user_id INTEGER\<close> has INTEGER
  affinity: an integer is stored as it is, a real without fraction inside the
  64-bit range as that integer, another real as it is, a text as the number it
  spells if it spells one and as it is otherwise.  Two of these conversions
  are parameters of the model: the text SQLite renders for a real, and the
  value a text has under INTEGER affinity.
\<close>

record affinity =
  text_of_real :: "rat \<Rightarrow> string"
  numeric_of_text :: "string \<Rightarrow> sql_value"

definition int64 :: "int \<Rightarrow> bool" where
  "int64 n = (- (2 ^ 63) \<le> n \<and> n < 2 ^ 63)"

fun show_nat :: "nat \<Rightarrow> string" where
  "show_nat n =
     (if n < 10 then [char_of (48 + n)]
      else show_nat (n div 10) @ [char_of (48 + n mod 10)])"

declare show_nat.simps [simp del]

definition show_int :: "int \<Rightarrow> string" where
  "show_int i = (if i < 0 then CHR ''-'' # show_nat (nat (- i)) else show_nat (nat i))"

definition numeric_of_real :: "rat \<Rightarrow> sql_value" where
  "numeric_of_real x =
     (if of_int \<lfloor>x\<rfloor> = x \<and> - (2 ^ 63) < x \<and> x < 2 ^ 63 then SqlInt \<lfloor>x\<rfloor> else SqlReal x)"

text \<open>\<open>None\<close>: the value cannot be stored, and the \<^verbatim>\<open>INSERT\<close> raises.\<close>

fun bind_title :: "affinity \<Rightarrow> json \<Rightarrow> string option" where
  "bind_title cv (JStr t) = Some t"
| "bind_title cv (JNum n) = (if int64 n then Some (show_int n) else None)"
| "bind_title cv (JBool b) = Some (show_int (if b then 1 else 0))"
| "bind_title cv (JFloat x) = Some (text_of_real cv x)"
| "bind_title cv JNull = None"
| "bind_title cv (JArr xs) = None"
| "bind_title cv (JObj kvs) = None"

fun bind_user_id :: "affinity \<Rightarrow> json \<Rightarrow> sql_value option" where
  "bind_user_id cv (JNum n) = (if int64 n then Some (SqlInt n) else None)"
| "bind_user_id cv (JBool b) = Some (SqlInt (if b then 1 else 0))"
| "bind_user_id cv (JFloat x) = Some (numeric_of_real x)"
| "bind_user_id cv (JStr t) = Some (numeric_of_text cv t)"
| "bind_user_id cv JNull = None"
| "bind_user_id cv (JArr xs) = None"
| "bind_user_id cv (JObj kvs) = None"

text \<open>
  \<^verbatim>\<open>create_task\<close>.  The peer is the function from the value under \<^verbatim>\<open>user_id\<close> to
  the outcome of the \<^verbatim>\<open>GET\<close> whose path is \<^verbatim>\<open>/users/\<close> followed by that value
  as Python prints it.  The result is the response, the table after the
  request, and the list of values the handler asked the peer about.

  \<^verbatim>\<open>get_json\<close> is called outside any \<^verbatim>\<open>try\<close>, so an abort is the response.  A body
  that is truthy and not an object passes \<^verbatim>\<open>not data\<close>; then \<^verbatim>\<open>data.get\<close> raises
  \<^verbatim>\<open>AttributeError\<close>, which nothing catches, and Flask answers 500.  The one
  store call is \<^verbatim>\<open>db.session.commit()\<close> (call 0), which sends the \<^verbatim>\<open>INSERT\<close>; there
  is no \<^verbatim>\<open>try\<close> around it either, so when it raises the session is discarded
  with nothing written and Flask answers 500.  The row in the answer is read
  back from the table after the commit.
\<close>

definition create_task ::
  "affinity \<Rightarrow> fault \<Rightarrow> (json \<Rightarrow> peer_result) \<Rightarrow> store \<Rightarrow> get_json
     \<Rightarrow> response \<times> store \<times> json list" where
  "create_task cv f peer s request =
     (case request of
        UnsupportedMediaType \<Rightarrow> ((Aborted, 415), s, [])
      | BadRequest \<Rightarrow> ((Aborted, 400), s, [])
      | Returns data \<Rightarrow>
          if \<not> truthy data then ((ErrInvalidData, 400), s, [])
          else
            (case data of
               JObj kvs \<Rightarrow>
                 if \<not> truthy (dict_get kvs ''title'') \<or> \<not> truthy (dict_get kvs ''user_id'')
                 then ((ErrInvalidData, 400), s, [])
                 else
                   (case peer (dict_get kvs ''user_id'') of
                      PeerRaises e \<Rightarrow>
                        ((ErrPeerConnection e, 500), s, [dict_get kvs ''user_id''])
                    | PeerResponse code b \<Rightarrow>
                        if code \<noteq> 200
                        then ((ErrInvalidUser, 400), s, [dict_get kvs ''user_id''])
                        else
                          (case (bind_title cv (dict_get kvs ''title''),
                                 bind_user_id cv (dict_get kvs ''user_id'')) of
                             (Some t, Some u) \<Rightarrow>
                               if raises_at f 0
                               then ((Unhandled, 500), s, [dict_get kvs ''user_id''])
                               else
                                 let new = \<lparr>task_id = next_id s, title = t, user_id = u\<rparr>
                                 in ((TaskJson new, 201), s @ [new], [dict_get kvs ''user_id''])
                           | _ \<Rightarrow> ((Unhandled, 500), s, [dict_get kvs ''user_id''])))
             | _ \<Rightarrow> ((Unhandled, 500), s, [])))"

section \<open>The ORM session\<close>

text \<open>
  Each request works through a fresh SQLAlchemy session (Flask-SQLAlchemy's
  default: \<^verbatim>\<open>autoflush\<close> on).  The session is modelled as far as the handlers use
  it:
  \<^item> \<open>rows\<close>: the table as the open transaction sees it;
  \<^item> \<open>loaded\<close>: the identity map, the objects loaded so far;
  \<^item> \<open>deleted\<close>: the objects marked by \<^verbatim>\<open>db.session.delete\<close>, whose
    \<^verbatim>\<open>DELETE\<close> has not been sent yet.

  A flush sends the pending \<^verbatim>\<open>DELETE\<close> statements (by primary key) and drops the
  deleted objects from the identity map.  \<^verbatim>\<open>Task.query.get(i)\<close> answers from the
  identity map when it holds an object with that key, without sending SQL and
  so without flushing; otherwise it flushes and selects the row.
  \<^verbatim>\<open>db.session.commit()\<close> flushes and makes the transaction's table the durable
  one; \<^verbatim>\<open>db.session.rollback()\<close> drops the transaction and leaves the durable
  table as it was.
\<close>

record session =
  rows :: store
  loaded :: "task list"
  deleted :: "task list"

definition begin_session :: "store \<Rightarrow> session" where
  "begin_session s = \<lparr>rows = s, loaded = [], deleted = []\<rparr>"

definition flush :: "session \<Rightarrow> session" where
  "flush ss =
     \<lparr>rows = filter (\<lambda>t. task_id t \<notin> set (map task_id (deleted ss))) (rows ss),
      loaded = filter (\<lambda>t. task_id t \<notin> set (map task_id (deleted ss))) (loaded ss),
      deleted = []\<rparr>"

definition query_get :: "session \<Rightarrow> int \<Rightarrow> task option \<times> session" where
  "query_get ss i =
     (case find (\<lambda>t. task_id t = i) (loaded ss) of
        Some t \<Rightarrow> (Some t, ss)
      | None \<Rightarrow>
          let ss' = flush ss in
          (case find (\<lambda>t. task_id t = i) (rows ss') of
             Some t \<Rightarrow> (Some t, ss'\<lparr>loaded := loaded ss' @ [t]\<rparr>)
           | None \<Rightarrow> (None, ss')))"

definition session_delete :: "session \<Rightarrow> task \<Rightarrow> session" where
  "session_delete ss t =
     (if t \<in> set (deleted ss) then ss else ss\<lparr>deleted := deleted ss @ [t]\<rparr>)"

text \<open>\<^verbatim>\<open>Task.query.delete()\<close>: flush, delete every row, return the number of rows deleted.\<close>

definition query_delete :: "session \<Rightarrow> nat \<times> session" where
  "query_delete ss = (let ss' = flush ss in (length (rows ss'), ss'\<lparr>rows := []\<rparr>))"

definition commit :: "store \<Rightarrow> session \<Rightarrow> store" where
  "commit durable ss = rows (flush ss)"

definition rollback :: "store \<Rightarrow> session \<Rightarrow> store" where
  "rollback durable ss = durable"

section \<open>GET /tasks and DELETE /tasks/<id>\<close>

text \<open>Neither handler has a \<^verbatim>\<open>try\<close>: a store error escapes and nothing is written.\<close>

definition get_tasks :: "fault \<Rightarrow> store \<Rightarrow> response" where
  "get_tasks f s = (if raises_at f 0 then (Unhandled, 500) else (TaskList s, 200))"

definition delete_task :: "fault \<Rightarrow> store \<Rightarrow> int \<Rightarrow> response \<times> store" where
  "delete_task f s i =
     (if raises_at f 0 then ((Unhandled, 500), s)
      else
        (case query_get (begin_session s) i of
           (Some t, ss) \<Rightarrow>
             if raises_at f 1 then ((Unhandled, 500), rollback s (session_delete ss t))
             else ((MsgTaskDeleted i, 200), commit s (session_delete ss t))
         | (None, ss) \<Rightarrow> ((ErrTaskNotFound, 404), s)))"

section \<open>DELETE /tasks/cleanup\<close>

text \<open>Store calls: \<^verbatim>\<open>Task.query.delete()\<close> (call 0) and \<^verbatim>\<open>db.session.commit()\<close> (call 1).\<close>

definition cleanup_tasks :: "fault \<Rightarrow> store \<Rightarrow> response \<times> store" where
  "cleanup_tasks f s =
     (let ss = begin_session s in
      if raises_at f 0 then ((ErrException, 500), rollback s ss)
      else
        (case query_delete ss of
           (num_deleted, ss') \<Rightarrow>
             if raises_at f 1 then ((ErrException, 500), rollback s ss')
             else ((MsgDeleted num_deleted, 200), commit s ss')))"

section \<open>DELETE /tasks/cleanup-specific\<close>

text \<open>
  The body: \<open>None\<close> when \<^verbatim>\<open>not data\<close>, otherwise what the object holds under
  \<^verbatim>\<open>task_ids\<close>: nothing, something that is not a list, or a list of ids.
\<close>

datatype task_ids_field = NoTaskIds | NotAList | IdList "int list"

text \<open>
  The \<^verbatim>\<open>for task_id in task_ids\<close> loop.  The \<open>k\<close>-th store call of the request is
  the \<^verbatim>\<open>Task.query.get\<close> of the \<open>k\<close>-th id.  \<open>Inl\<close> is an exception, with the session
  as it was; \<open>Inr\<close> gives the session, \<^verbatim>\<open>deleted_count\<close> and the number of store
  calls made.
\<close>

fun delete_each ::
  "fault \<Rightarrow> nat \<Rightarrow> int list \<Rightarrow> session \<Rightarrow> nat \<Rightarrow> session + session \<times> nat \<times> nat" where
  "delete_each f k [] ss deleted_count = Inr (ss, deleted_count, k)"
| "delete_each f k (i # ids) ss deleted_count =
     (if raises_at f k then Inl ss
      else
        (case query_get ss i of
           (Some t, ss') \<Rightarrow> delete_each f (Suc k) ids (session_delete ss' t) (Suc deleted_count)
         | (None, ss') \<Rightarrow> delete_each f (Suc k) ids ss' deleted_count))"

definition cleanup_specific_tasks ::
  "fault \<Rightarrow> store \<Rightarrow> task_ids_field option \<Rightarrow> response \<times> store" where
  "cleanup_specific_tasks f s data =
     (case data of
        None \<Rightarrow> ((ErrTaskIdsRequired, 400), s)
      | Some NoTaskIds \<Rightarrow> ((ErrTaskIdsRequired, 400), s)
      | Some NotAList \<Rightarrow> ((ErrTaskIdsNotList, 400), s)
      | Some (IdList task_ids) \<Rightarrow>
          (case delete_each f 0 task_ids (begin_session s) 0 of
             Inl ss \<Rightarrow> ((ErrException, 500), rollback s ss)
           | Inr (ss, deleted_count, k) \<Rightarrow>
               if raises_at f k then ((ErrException, 500), rollback s ss)
               else ((MsgDeletedSpecific deleted_count, 200), commit s ss)))"

section \<open>GET /tasks/stats\<close>

text \<open>
  \<^verbatim>\<open>Counter(task.user_id for task in all_tasks)\<close>: a dictionary from owner to
  number of tasks, whose keys stay in the order in which they were first seen.
\<close>

fun counter_add :: "sql_value \<Rightarrow> (sql_value \<times> nat) list \<Rightarrow> (sql_value \<times> nat) list" where
  "counter_add u [] = [(u, 1)]"
| "counter_add u ((v, c) # rest) =
     (if u = v then (v, Suc c) # rest else (v, c) # counter_add u rest)"

definition Counter :: "sql_value list \<Rightarrow> (sql_value \<times> nat) list" where
  "Counter us = fold counter_add us []"

text \<open>
  \<^verbatim>\<open>most_common(n)\<close> is \<^verbatim>\<open>sorted(items, key=count, reverse=True)[:n]\<close>; Python's sort
  is stable, also with \<^verbatim>\<open>reverse=True\<close>.  \<open>sort_key\<close> is a stable insertion sort,
  here on the negated count.
\<close>

definition most_common ::
  "nat \<Rightarrow> (sql_value \<times> nat) list \<Rightarrow> (sql_value \<times> nat) list" where
  "most_common n items = take n (sort_key (\<lambda>p. - int (snd p)) items)"

text \<open>\<^verbatim>\<open>Task.query.order_by(Task.id.desc()).limit(5).all()\<close>.\<close>

definition order_by_id_desc :: "store \<Rightarrow> store" where
  "order_by_id_desc s = sort_key (\<lambda>t. - task_id t) s"

definition limit :: "nat \<Rightarrow> store \<Rightarrow> store" where
  "limit n s = take n s"

text \<open>
  Python's \<^verbatim>\<open>len\<close> of a decoded JSON value: defined on strings, arrays and
  objects (given by the items of the decoded dictionary), a \<^verbatim>\<open>TypeError\<close> on the
  rest.
\<close>

fun py_len :: "json \<Rightarrow> nat option" where
  "py_len (JStr s) = Some (length s)"
| "py_len (JArr xs) = Some (length xs)"
| "py_len (JObj kvs) = Some (length kvs)"
| "py_len _ = None"

fun type_name :: "json \<Rightarrow> string" where
  "type_name JNull = ''NoneType''"
| "type_name (JBool b) = ''bool''"
| "type_name (JNum n) = ''int''"
| "type_name (JFloat x) = ''float''"
| "type_name (JStr s) = ''str''"
| "type_name (JArr xs) = ''list''"
| "type_name (JObj kvs) = ''dict''"

definition len_error :: "json \<Rightarrow> string" where
  "len_error j = ''object of type '' @ [CHR 0x27] @ type_name j @ [CHR 0x27] @ '' has no len()''"

text \<open>
  The inner \<^verbatim>\<open>try\<close> of \<^verbatim>\<open>get_task_stats\<close>: \<^verbatim>\<open>user_service_stats\<close> starts as
  \<^verbatim>\<open>{'total_users': 0, 'error': None}\<close>; a response with status 200 sets
  \<^verbatim>\<open>total_users\<close> to the length of its decoded body; any exception raised on the
  way (by \<^verbatim>\<open>requests.get\<close>, by \<^verbatim>\<open>.json()\<close>, by \<^verbatim>\<open>len\<close>) sets \<^verbatim>\<open>error\<close>.  A response
  with another status changes nothing.
\<close>

definition unavailable :: "string \<Rightarrow> users_section" where
  "unavailable e = \<lparr>total_users = 0, error = Some (''User service unavailable: '' @ e)\<rparr>"

definition user_service_stats :: "peer_result \<Rightarrow> users_section" where
  "user_service_stats users_response =
     (case users_response of
        PeerRaises e \<Rightarrow> unavailable e
      | PeerResponse status_code body \<Rightarrow>
          if status_code = 200 then
            (case body of
               NotJson e \<Rightarrow> unavailable e
             | Json users_data \<Rightarrow>
                 (case py_len users_data of
                    None \<Rightarrow> unavailable (len_error users_data)
                  | Some n \<Rightarrow> \<lparr>total_users = n, error = None\<rparr>))
          else \<lparr>total_users = 0, error = None\<rparr>)"

text \<open>
  The float arithmetic of the metrics.  \<^verbatim>\<open>a / b\<close> on Python integers is the
  double nearest to the quotient (ties to the even mantissa): for a positive
  quotient between \<open>2\<^sup>e\<close> and \<open>2\<^sup>e\<^sup>+\<^sup>1\<close> that is the quotient rounded to a multiple
  of \<open>2\<^sup>e\<^sup>-\<^sup>5\<^sup>2\<close>.  \<open>bitlen\<close> is the number of binary digits, from which the
  exponent is found.  \<^verbatim>\<open>round(x, 2)\<close> rounds the exact value of the double \<open>x\<close> to
  the nearest multiple of 0.01, ties to the even one, and returns the double
  nearest to that decimal, which prints as that decimal; \<open>py_round2\<close> gives the
  decimal.  Exponent range is not modelled: the counts of a table are far
  below \<open>2\<^sup>1\<^sup>0\<^sup>2\<^sup>4\<close>.
\<close>

fun bitlen :: "nat \<Rightarrow> nat" where
  "bitlen n = (if n = 0 then 0 else Suc (bitlen (n div 2)))"

declare bitlen.simps [simp del]

definition rhe :: "rat \<Rightarrow> int" where
  "rhe x =
     (let f = \<lfloor>x\<rfloor>; r = x - of_int f in
      if r < 1 / 2 then f else if 1 / 2 < r then f + 1 else if even f then f else f + 1)"

definition true_div :: "nat \<Rightarrow> nat \<Rightarrow> rat" where
  "true_div a b =
     (if a = 0 then 0
      else
        let q = of_nat a / of_nat b;
            e0 = int (bitlen a) - int (bitlen b);
            e = (if 2 powi e0 \<le> q then e0 else e0 - 1)
        in of_int (rhe (q * 2 powi (52 - e))) * 2 powi (e - 52))"

definition py_round2 :: "rat \<Rightarrow> rat" where
  "py_round2 x = of_int (rhe (100 * x)) / 100"

text \<open>
  The two metrics.  \<open>MZero\<close> is the integer \<^verbatim>\<open>0\<close> of the \<^verbatim>\<open>else\<close> branches;
  \<open>MRound2 a b\<close> is \<^verbatim>\<open>round(a / b, 2)\<close>, and \<open>metric_value\<close> is the number either
  one stands for.
\<close>

fun metric_value :: "metric \<Rightarrow> rat" where
  "metric_value MZero = 0"
| "metric_value (MRound2 a b) = py_round2 (true_div a b)"

definition productivity :: "nat \<Rightarrow> nat \<Rightarrow> nat \<Rightarrow> metrics_section" where
  "productivity n_tasks n_users n_owners =
     \<lparr>avg_tasks_per_user =
        (if n_users > 0 \<and> n_tasks > 0 then MRound2 n_tasks n_users else MZero),
      avg_tasks_per_active_user =
        (if n_owners > 0 then MRound2 n_tasks n_owners else MZero)\<rparr>"

definition system_of :: "users_section \<Rightarrow> system_section" where
  "system_of u =
     \<lparr>status = (if error u = None then ''healthy'' else ''partial''),
      task_service = ''online'',
      user_service = (if error u = None then ''online'' else ''offline'')\<rparr>"

text \<open>
  \<^verbatim>\<open>get_task_stats\<close>.  Store calls: \<^verbatim>\<open>Task.query.count()\<close> (call 0),
  \<^verbatim>\<open>Task.query.all()\<close> (call 1) and the ordered, limited query (call 2), all before
  the peer is called; an exception there reaches the outer \<^verbatim>\<open>except\<close>, which
  answers 500.  \<open>now\<close> is \<^verbatim>\<open>datetime.now().isoformat()\<close>; \<open>users_response\<close> is the
  outcome of \<^verbatim>\<open>requests.get('http://localhost:5001/users', timeout=2)\<close>.
\<close>

definition get_task_stats :: "fault \<Rightarrow> string \<Rightarrow> peer_result \<Rightarrow> store \<Rightarrow> response" where
  "get_task_stats f now users_response s =
     (if raises_at f 0 \<or> raises_at f 1 \<or> raises_at f 2 then (ErrStatsFailed, 500)
      else
        let n_tasks = length s;
            all_tasks = s;
            user_task_counts = Counter (map user_id all_tasks);
            n_owners = length user_task_counts;
            recent = limit 5 (order_by_id_desc s);
            u = user_service_stats users_response
        in (Stats
              \<lparr>timestamp = now,
               tasks = \<lparr>total_tasks = n_tasks,
                        users_with_tasks = n_owners,
                        recent_tasks = recent,
                        top_productive_users = most_common 3 user_task_counts\<rparr>,
               users = u,
               productivity_metrics = productivity n_tasks (total_users u) n_owners,
               system = system_of u\<rparr>, 200))"

section \<open>Notions used to state the properties\<close>

text \<open>The table as the session would leave it if it were flushed now.\<close>

definition visible :: "session \<Rightarrow> store" where
  "visible ss = rows (flush ss)"

text \<open>
  The number of tasks of an owner, the position of the owner's first task in
  the table, and the ranking the spec describes: more tasks first, and among
  owners with equally many tasks the one met first.
\<close>

definition count_tasks :: "store \<Rightarrow> sql_value \<Rightarrow> nat" where
  "count_tasks s u = length (filter (\<lambda>t. user_id t = u) s)"

definition first_seen :: "store \<Rightarrow> sql_value \<Rightarrow> nat" where
  "first_seen s u = length (takeWhile (\<lambda>t. user_id t \<noteq> u) s)"

definition ranks_above :: "store \<Rightarrow> sql_value \<Rightarrow> sql_value \<Rightarrow> bool" where
  "ranks_above s u v =
     (count_tasks s v < count_tasks s u
      \<or> (count_tasks s v = count_tasks s u \<and> first_seen s u < first_seen s v))"

text \<open>The position of the first occurrence of an owner in a list of owners.\<close>

definition first_pos :: "sql_value list \<Rightarrow> sql_value \<Rightarrow> nat" where
  "first_pos us u = length (takeWhile (\<lambda>x. x \<noteq> u) us)"

text \<open>The snapshot carried by a response, if it carries one.\<close>

fun snapshot :: "response \<Rightarrow> stats option" where
  "snapshot (Stats st, code) = Some st"
| "snapshot (other, code) = None"

text \<open>
  The spec's words for the metrics: the exact quotient rounded to 2 decimal
  places, with a quotient midway between two hundredths going to the even
  one, or going up.
\<close>

definition exact_round2_half_even :: "nat \<Rightarrow> nat \<Rightarrow> rat" where
  "exact_round2_half_even a b = of_int (rhe (100 * (of_nat a / of_nat b))) / 100"

definition exact_round2_half_up :: "nat \<Rightarrow> nat \<Rightarrow> rat" where
  "exact_round2_half_up a b = of_int \<lfloor>100 * (of_nat a / of_nat b :: rat) + 1 / 2\<rfloor> / 100"


definition affinity_w :: affinity where
  "affinity_w =
     \<lparr>text_of_real = (\<lambda>x. show_int (fst (quotient_of x)) @ ''/'' @ show_int (snd (quotient_of x))),
      numeric_of_text = SqlText\<rparr>"

definition store_w :: store where
  "store_w =
     [\<lparr>task_id = 1, title = ''a'', user_id = SqlInt 7\<rparr>,
      \<lparr>task_id = 2, title = ''b'', user_id = SqlInt 8\<rparr>,
      \<lparr>task_id = 3, title = ''c'', user_id = SqlInt 8\<rparr>,
      \<lparr>task_id = 4, title = ''d'', user_id = SqlInt 9\<rparr>,
      \<lparr>task_id = 5, title = ''e'', user_id = SqlInt 8\<rparr>,
      \<lparr>task_id = 6, title = ''f'', user_id = SqlInt 7\<rparr>]"

text \<open>
  Two more tables: one of 107 tasks, and one where three owners have two tasks
  each and a fourth owner has one.
\<close>

definition store_107 :: store where
  "store_107 = map (\<lambda>i. \<lparr>task_id = i, title = ''t'', user_id = SqlInt 1\<rparr>) [1..107]"

definition store_c :: store where
  "store_c =
     [\<lparr>task_id = 1, title = ''a'', user_id = SqlInt 1\<rparr>,
      \<lparr>task_id = 2, title = ''b'', user_id = SqlInt 1\<rparr>,
      \<lparr>task_id = 3, title = ''c'', user_id = SqlInt 2\<rparr>,
      \<lparr>task_id = 4, title = ''d'', user_id = SqlInt 2\<rparr>,
      \<lparr>task_id = 5, title = ''e'', user_id = SqlInt 3\<rparr>,
      \<lparr>task_id = 6, title = ''f'', user_id = SqlInt 3\<rparr>,
      \<lparr>task_id = 7, title = ''g'', user_id = SqlInt 4\<rparr>]"

section \<open>POST /tasks: validation and peer verification\<close>


text \<open>
  C10.  A body whose \<^verbatim>\<open>user_id\<close> is 0, or whose \<^verbatim>\<open>title\<close> is the empty string, is
  rejected with 400 as invalid data: the table is unchanged and the peer is
  not asked anything, whatever the peer would have answered (so also when
  a user 0 exists).
\<close>

theorem create_task_falsy_rejected:
  assumes "dict_get kvs ''user_id'' = JNum 0 \<or> dict_get kvs ''title'' = JStr []"
  shows "create_task cv f peer s (Returns (JObj kvs)) = ((ErrInvalidData, 400), s, [])"
  using assms by (auto simp: create_task_def)

theorem create_task_falsy_rejected_witness:
  "(dict_get [(''title'', JStr ''buy milk''), (''user_id'', JNum 0)] ''user_id'' = JNum 0
      \<or> dict_get [(''title'', JStr ''buy milk''), (''user_id'', JNum 0)] ''title'' = JStr [])
   \<and> create_task affinity_w None (\<lambda>uid. PeerResponse 200 (Json (JObj [])))
         [\<lparr>task_id = 1, title = ''a'', user_id = SqlInt 7\<rparr>]
         (Returns (JObj [(''title'', JStr ''buy milk''), (''user_id'', JNum 0)]))
       = ((ErrInvalidData, 400), [\<lparr>task_id = 1, title = ''a'', user_id = SqlInt 7\<rparr>], [])"
proof -
  have h: "dict_get [(''title'', JStr ''buy milk''), (''user_id'', JNum 0)] ''user_id'' = JNum 0
      \<or> dict_get [(''title'', JStr ''buy milk''), (''user_id'', JNum 0)] ''title'' = JStr []"
    by (simp add: dict_get_def)
  from create_task_falsy_rejected [OF h] h show ?thesis by blast
qed




text \<open>
  C8.  The claim that every stored row has a title of at most 100 characters
  fails: \<^verbatim>\<open>create_task\<close> checks only that the title is truthy, and a title of
  101 characters for an existing user is answered 201 and stored in full.
\<close>

theorem long_title_stored:
  "create_task affinity_w None (\<lambda>uid. PeerResponse 200 (Json (JObj []))) []
      (Returns (JObj [(''title'', JStr (replicate 101 CHR ''a'')), (''user_id'', JNum 1)]))
     = ((TaskJson \<lparr>task_id = 1, title = replicate 101 CHR ''a'', user_id = SqlInt 1\<rparr>, 201),
        [\<lparr>task_id = 1, title = replicate 101 CHR ''a'', user_id = SqlInt 1\<rparr>], [JNum 1])
   \<and> length (replicate 101 CHR ''a'') = 101"
  by (simp add: create_task_def dict_get_def raises_at_def next_id_def Let_def int64_def)

theorem long_title_stored_witness:
  "snd (fst (create_task affinity_w None (\<lambda>uid. PeerResponse 200 (Json (JObj []))) []
      (Returns (JObj [(''title'', JStr (replicate 101 CHR ''a'')), (''user_id'', JNum 1)])))) = 201
   \<and> map (\<lambda>t. length (title t))
        (fst (snd (create_task affinity_w None (\<lambda>uid. PeerResponse 200 (Json (JObj []))) []
          (Returns (JObj [(''title'', JStr (replicate 101 CHR ''a'')), (''user_id'', JNum 1)])))))
       = [101]"
  using long_title_stored by simp

section \<open>GET /tasks/stats: the peer and the health verdict\<close>

lemma stats_ok:
  assumes "\<not> raises_at f 0" "\<not> raises_at f 1" "\<not> raises_at f 2"
  shows "\<exists>st. get_task_stats f now r s = (Stats st, 200)"
  using assms by (simp add: get_task_stats_def Let_def)

lemma stats_sections:
  assumes "get_task_stats f now r s = (Stats st, code)"
  shows "recent_tasks (tasks st) = limit 5 (order_by_id_desc s)"
    and "top_productive_users (tasks st) = most_common 3 (Counter (map user_id s))"
    and "users st = user_service_stats r"
    and "system st = system_of (user_service_stats r)"
  using assms by (auto simp: get_task_stats_def Let_def split: if_splits)

text \<open>
  C1.  When the store reads succeed and the request to the peer raises, the
  endpoint answers 200 with a complete snapshot: \<^verbatim>\<open>system.status\<close> is
  \<^verbatim>\<open>partial\<close>, \<^verbatim>\<open>users.error\<close> is set, \<^verbatim>\<open>users.total_users\<close> is 0, and the
  task section is the one computed from the table.
\<close>

theorem stats_peer_failure:
  assumes "\<not> raises_at f 0" "\<not> raises_at f 1" "\<not> raises_at f 2"
  shows "\<exists>st. get_task_stats f now (PeerRaises e) s = (Stats st, 200)
            \<and> status (system st) = ''partial''
            \<and> error (users st) = Some (''User service unavailable: '' @ e)
            \<and> total_users (users st) = 0
            \<and> timestamp st = now
            \<and> tasks st = \<lparr>total_tasks = length s,
                           users_with_tasks = length (Counter (map user_id s)),
                           recent_tasks = limit 5 (order_by_id_desc s),
                           top_productive_users = most_common 3 (Counter (map user_id s))\<rparr>"
  using assms
  by (simp add: get_task_stats_def Let_def user_service_stats_def unavailable_def system_of_def)

theorem stats_peer_failure_witness:
  "\<not> raises_at None 0 \<and> \<not> raises_at None 1 \<and> \<not> raises_at None 2
   \<and> (\<exists>st. get_task_stats None ''t'' (PeerRaises ''timed out'') store_w = (Stats st, 200)
          \<and> status (system st) = ''partial''
          \<and> error (users st) = Some ''User service unavailable: timed out''
          \<and> total_users (users st) = 0
          \<and> total_tasks (tasks st) = 6)"
proof -
  have h: "\<not> raises_at None 0" "\<not> raises_at None 1" "\<not> raises_at None 2"
    by (simp_all add: raises_at_def)
  from stats_peer_failure [OF h, of "''t''" "''timed out''" store_w]
  obtain st where
    "get_task_stats None ''t'' (PeerRaises ''timed out'') store_w = (Stats st, 200)"
    "status (system st) = ''partial''"
    "error (users st) = Some (''User service unavailable: '' @ ''timed out'')"
    "total_users (users st) = 0"
    "tasks st = \<lparr>total_tasks = length store_w,
                  users_with_tasks = length (Counter (map user_id store_w)),
                  recent_tasks = limit 5 (order_by_id_desc store_w),
                  top_productive_users = most_common 3 (Counter (map user_id store_w))\<rparr>"
    by blast
  moreover have "length store_w = 6" by (simp add: store_w_def)
  ultimately show ?thesis using h by auto
qed




section \<open>GET /tasks/stats: the productivity metrics\<close>

lemma rhe_close: "\<bar>of_int (rhe x) - x\<bar> \<le> 1 / 2"
proof -
  let ?f = "\<lfloor>x\<rfloor>"
  let ?r = "x - of_int ?f"
  have r: "0 \<le> ?r" "?r < 1" by linarith+
  consider "?r < 1 / 2" | "1 / 2 < ?r" | "?r = 1 / 2" by linarith
  then show ?thesis
  proof cases
    case 1
    then have "rhe x = ?f" by (simp add: rhe_def Let_def)
    with 1 r show ?thesis by simp
  next
    case 2
    then have "rhe x = ?f + 1" by (simp add: rhe_def Let_def)
    with 2 r show ?thesis by simp
  next
    case 3
    then have "rhe x = ?f \<or> rhe x = ?f + 1" by (simp add: rhe_def Let_def)
    with 3 show ?thesis by auto
  qed
qed

lemma bitlen_pos: "0 < n \<Longrightarrow> 0 < bitlen n"
  by (subst bitlen.simps) simp

lemma bitlen_lower: "0 < n \<Longrightarrow> 2 ^ (bitlen n - 1) \<le> n"
proof (induction n rule: bitlen.induct)
  case (1 n)
  show ?case
  proof (cases "n div 2 = 0")
    case True
    then have "bitlen (n div 2) = 0" by (simp add: bitlen.simps)
    then have "bitlen n = 1" using "1.prems" by (subst bitlen.simps) simp
    with "1.prems" show ?thesis by simp
  next
    case False
    then have h: "2 ^ (bitlen (n div 2) - 1) \<le> n div 2" using "1.IH" "1.prems" by simp
    have p: "0 < bitlen (n div 2)" using False by (simp add: bitlen_pos)
    have "bitlen n = Suc (bitlen (n div 2))" using "1.prems" by (subst bitlen.simps) simp
    then have "2 ^ (bitlen n - 1) = (2::nat) * 2 ^ (bitlen (n div 2) - 1)"
      using p by (cases "bitlen (n div 2)") simp_all
    also have "\<dots> \<le> 2 * (n div 2)" using h by simp
    also have "\<dots> \<le> n" by simp
    finally show ?thesis .
  qed
qed

lemma bitlen_upper: "n < 2 ^ bitlen n"
proof (induction n rule: bitlen.induct)
  case (1 n)
  show ?case
  proof (cases "n = 0")
    case True
    then show ?thesis by simp
  next
    case False
    then have h: "n div 2 < 2 ^ bitlen (n div 2)" using "1.IH" by simp
    have "bitlen n = Suc (bitlen (n div 2))" using False by (subst bitlen.simps) simp
    moreover have "n < 2 * (n div 2 + 1)" by simp
    ultimately show ?thesis using h by simp
  qed
qed

lemma exponent_lower:
  assumes a: "0 < a" and b: "0 < b"
  shows "(2::rat) powi (int (bitlen a) - int (bitlen b) - 1) \<le> of_nat a / of_nat b"
proof -
  let ?la = "bitlen a" and ?lb = "bitlen b"
  obtain k where k: "?la = Suc k" using bitlen_pos [OF a] by (cases ?la) auto
  have "(2::rat) ^ k \<le> of_nat a"
    using bitlen_lower [OF a] k by (metis diff_Suc_1 of_nat_le_iff of_nat_numeral of_nat_power)
  moreover have "of_nat b \<le> (2::rat) ^ ?lb"
    using bitlen_upper [of b] by (metis less_imp_le of_nat_le_iff of_nat_numeral of_nat_power)
  moreover have "(0::rat) < of_nat b" using b by simp
  ultimately have "(2::rat) ^ k / 2 ^ ?lb \<le> of_nat a / of_nat b"
    by (intro frac_le) simp_all
  then have "(2::rat) powi (int k) / 2 powi (int ?lb) \<le> of_nat a / of_nat b" by simp
  moreover have "(2::rat) powi (int k - int ?lb) = 2 powi (int k) / 2 powi (int ?lb)"
    by (rule power_int_diff) simp
  ultimately have "(2::rat) powi (int k - int ?lb) \<le> of_nat a / of_nat b" by (simp only:)
  moreover have "int ?la - int ?lb - 1 = int k - int ?lb" using k by simp
  ultimately show ?thesis by (simp only:)
qed

lemma half_ulp: "(1 / 2) * (2::rat) powi (k - 52) = 2 powi k * 2 powi (- 53)"
proof -
  have "(2::rat) powi (k - 52) = 2 powi k * 2 powi (- 52)"
    using power_int_add [of "2::rat" k "- 52"] by simp
  moreover have "(1 / 2) * (2::rat) powi (- 52) = 2 powi (- 53)"
    by (simp add: power_int_minus)
  ultimately show ?thesis by (simp add: mult.assoc mult.left_commute)
qed

lemma true_div_close:
  assumes a: "0 < a" and b: "0 < b"
  shows "\<bar>true_div a b - of_nat a / of_nat b\<bar> \<le> (of_nat a / of_nat b) * 2 powi (- 53)"
proof -
  define q :: rat where "q = of_nat a / of_nat b"
  define e0 where "e0 = int (bitlen a) - int (bitlen b)"
  define e where "e = (if 2 powi e0 \<le> q then e0 else e0 - 1)"
  define m where "m = rhe (q * 2 powi (52 - e))"
  have td: "true_div a b = of_int m * 2 powi (e - 52)"
    using a by (simp add: true_div_def Let_def q_def e0_def e_def m_def)
  have low: "(2::rat) powi e \<le> q"
    using exponent_lower [OF a b] by (auto simp: e_def e0_def q_def)
  have pos: "(0::rat) < 2 powi (e - 52)" by simp
  have inv: "(2::rat) powi (52 - e) * 2 powi (e - 52) = 1"
    using power_int_add [of "2::rat" "52 - e" "e - 52"] by simp
  have "(of_int m - q * 2 powi (52 - e)) * 2 powi (e - 52)
          = of_int m * 2 powi (e - 52) - q * (2 powi (52 - e) * 2 powi (e - 52))"
    by (simp add: algebra_simps)
  then have "true_div a b - q = (of_int m - q * 2 powi (52 - e)) * 2 powi (e - 52)"
    using inv td by simp
  then have "\<bar>true_div a b - q\<bar> = \<bar>of_int m - q * 2 powi (52 - e)\<bar> * 2 powi (e - 52)"
    using pos by (simp add: abs_mult)
  also have "\<dots> \<le> (1 / 2) * 2 powi (e - 52)"
    using rhe_close [of "q * 2 powi (52 - e)"] pos
    unfolding m_def by (intro mult_right_mono) simp_all
  also have "\<dots> = 2 powi e * 2 powi (- 53)" by (rule half_ulp)
  also have "\<dots> \<le> q * 2 powi (- 53)"
    using low by (intro mult_right_mono) simp_all
  finally show ?thesis unfolding q_def .
qed

lemma rhe_zero: "rhe 0 = 0"
  by (simp add: rhe_def)

lemma py_round2_nearest:
  assumes b: "0 < b" and small: "200 * a < 2 ^ 53"
  shows "\<bar>py_round2 (true_div a b) - of_nat a / of_nat b\<bar> \<le> 1 / 200"
proof (cases "a = 0")
  case True
  then show ?thesis by (simp add: true_div_def py_round2_def rhe_zero)
next
  case False
  then have a: "0 < a" by simp
  define q :: rat where "q = of_nat a / of_nat b"
  define x where "x = true_div a b"
  define k where "k = rhe (100 * x)"
  define d where "d = k * int b - 100 * int a"
  have bpos: "(0::rat) < of_nat b" using b by simp
  have qb: "q * of_nat b = of_nat a" using b by (simp add: q_def)
  have i: "\<bar>of_int k - 100 * x\<bar> \<le> 1 / 2" unfolding k_def by (rule rhe_close)
  have "\<bar>x - q\<bar> \<le> q * 2 powi (- 53)"
    unfolding x_def q_def by (rule true_div_close [OF a b])
  then have ii: "\<bar>100 * x - 100 * q\<bar> \<le> 100 * (q * 2 powi (- 53))"
  proof -
    assume h: "\<bar>x - q\<bar> \<le> q * 2 powi (- 53)"
    have "\<bar>100 * x - 100 * q\<bar> = 100 * \<bar>x - q\<bar>" by (simp add: abs_if)
    with h show ?thesis by simp
  qed
  have tri: "\<bar>of_int k - 100 * q\<bar> \<le> 1 / 2 + 100 * (q * 2 powi (- 53))"
    using i ii by linarith
  have dq: "of_int d = (of_int k - 100 * q) * of_nat b"
  proof -
    have "(of_int k - 100 * q) * of_nat b = of_int k * of_nat b - 100 * (q * of_nat b)"
      by (simp add: algebra_simps)
    also have "\<dots> = of_int k * of_nat b - 100 * of_nat a" by (simp only: qb)
    also have "\<dots> = of_int d" by (simp add: d_def)
    finally show ?thesis by simp
  qed
  have near: "\<bar>of_int k - 100 * q\<bar> \<le> 1 / 2"
  proof (rule ccontr)
    assume "\<not> \<bar>of_int k - 100 * q\<bar> \<le> 1 / 2"
    then have far: "1 / 2 < \<bar>of_int k - 100 * q\<bar>" by simp
    have absd: "\<bar>(of_int d :: rat)\<bar> = \<bar>of_int k - 100 * q\<bar> * of_nat b"
      using bpos by (simp add: dq abs_mult)
    from far bpos have "1 / 2 * of_nat b < \<bar>of_int k - 100 * q\<bar> * of_nat b"
      by (rule mult_strict_right_mono)
    then have "(of_nat b :: rat) < 2 * \<bar>of_int d\<bar>" using absd by simp
    then have "(of_int (int b) :: rat) < of_int (2 * \<bar>d\<bar>)" by simp
    then have "int b < 2 * \<bar>d\<bar>" by (simp only: of_int_less_iff)
    then have "int b + 1 \<le> 2 * \<bar>d\<bar>" by simp
    then have "(of_int (int b + 1) :: rat) \<le> of_int (2 * \<bar>d\<bar>)" by (simp only: of_int_le_iff)
    then have "(of_nat b :: rat) + 1 \<le> 2 * \<bar>of_int d\<bar>" by simp
    also have "\<dots> = 2 * (\<bar>of_int k - 100 * q\<bar> * of_nat b)" by (simp only: absd)
    also have "\<dots> \<le> 2 * ((1 / 2 + 100 * (q * 2 powi (- 53))) * of_nat b)"
      using tri bpos by (intro mult_left_mono mult_right_mono) simp_all
    also have "\<dots> = of_nat b + 200 * (q * of_nat b) * 2 powi (- 53)"
      by (simp add: algebra_simps)
    also have "\<dots> = of_nat b + 200 * of_nat a * 2 powi (- 53)" by (simp only: qb)
    finally have "(1::rat) \<le> 200 * of_nat a * 2 powi (- 53)" by simp
    then have "(1::rat) \<le> 200 * of_nat a / 2 ^ 53" by (simp add: power_int_minus field_simps)
    then have "(2::rat) ^ 53 \<le> 200 * of_nat a" by (simp add: field_simps)
    then have "(of_nat (2 ^ 53) :: rat) \<le> of_nat (200 * a)" by simp
    then have "2 ^ 53 \<le> 200 * a" by (simp only: of_nat_le_iff)
    with small show False by simp
  qed
  have pr: "py_round2 x = of_int k / 100" by (simp add: py_round2_def k_def)
  have "of_int k / 100 - q = (of_int k - 100 * q) / 100" by (simp add: diff_divide_distrib)
  then have "\<bar>py_round2 x - q\<bar> = \<bar>of_int k - 100 * q\<bar> / 100"
    by (simp only: pr abs_divide)
  with near show ?thesis unfolding x_def q_def by simp
qed

lemma stats_metrics:
  assumes "get_task_stats f now r s = (Stats st, code)"
  shows "productivity_metrics st
           = productivity (total_tasks (tasks st)) (total_users (users st))
               (users_with_tasks (tasks st))"
  using assms by (auto simp: get_task_stats_def Let_def split: if_splits)

text \<open>
  C3, as the code has it.  With 107 tasks and 40 users the quotient is 2.675,
  midway between 2.67 and 2.68, and rounding it to 2 decimal places gives 2.68
  whether ties go to the even hundredth or up.  The code reports 2.67: the
  double nearest to 2.675 lies below it.
\<close>

theorem metric_107_40:
  "map_option (metric_value \<circ> avg_tasks_per_user \<circ> productivity_metrics)
     (snapshot (get_task_stats None ''t'' (PeerResponse 200 (Json (JArr (replicate 40 JNull))))
        store_107))
     = Some (267 / 100)
   \<and> exact_round2_half_even 107 40 = 268 / 100
   \<and> exact_round2_half_up 107 40 = 268 / 100"
proof -
  have v: "metric_value (MRound2 107 40) = 267 / 100" by code_simp
  have l: "length store_107 = 107" by (simp add: store_107_def)
  have "map_option (metric_value \<circ> avg_tasks_per_user \<circ> productivity_metrics)
     (snapshot (get_task_stats None ''t'' (PeerResponse 200 (Json (JArr (replicate 40 JNull))))
        store_107))
     = Some (metric_value (MRound2 107 40))"
    by (simp add: get_task_stats_def Let_def raises_at_def user_service_stats_def
          productivity_def l del: metric_value.simps)
  then have code: "map_option (metric_value \<circ> avg_tasks_per_user \<circ> productivity_metrics)
     (snapshot (get_task_stats None ''t'' (PeerResponse 200 (Json (JArr (replicate 40 JNull))))
        store_107))
     = Some (267 / 100)"
    by (simp only: v)
  have even: "exact_round2_half_even 107 40 = 268 / 100" by code_simp
  have up: "exact_round2_half_up 107 40 = 268 / 100"
    by (simp add: exact_round2_half_up_def)
  show ?thesis by (intro conjI code even up)
qed

text \<open>
  C3, amended.  In every snapshot both metrics are multiples of 0.01;
  \<^verbatim>\<open>avg_tasks_per_user\<close> is 0 when \<^verbatim>\<open>total_users\<close> is 0 and
  \<^verbatim>\<open>avg_tasks_per_active_user\<close> is 0 when \<^verbatim>\<open>users_with_tasks\<close> is 0; and for a table
  of fewer than \<open>2\<^sup>5\<^sup>3 / 200\<close> tasks each metric whose divisor is not 0 lies within
  0.005 of the exact quotient.  So it is the quotient rounded to 2 decimal
  places, except that a quotient exactly midway between two hundredths may go
  to either of them.
\<close>

theorem metrics_rounded:
  assumes run: "get_task_stats f now r s = (Stats st, code)"
  shows "(\<exists>k. metric_value (avg_tasks_per_user (productivity_metrics st)) = of_int k / 100)
       \<and> (\<exists>k. metric_value (avg_tasks_per_active_user (productivity_metrics st)) = of_int k / 100)
       \<and> (total_users (users st) = 0
            \<longrightarrow> metric_value (avg_tasks_per_user (productivity_metrics st)) = 0)
       \<and> (users_with_tasks (tasks st) = 0
            \<longrightarrow> metric_value (avg_tasks_per_active_user (productivity_metrics st)) = 0)
       \<and> (200 * total_tasks (tasks st) < 2 ^ 53 \<and> 0 < total_users (users st)
            \<longrightarrow> \<bar>metric_value (avg_tasks_per_user (productivity_metrics st))
                  - of_nat (total_tasks (tasks st)) / of_nat (total_users (users st))\<bar>
                \<le> 1 / 200)
       \<and> (200 * total_tasks (tasks st) < 2 ^ 53 \<and> 0 < users_with_tasks (tasks st)
            \<longrightarrow> \<bar>metric_value (avg_tasks_per_active_user (productivity_metrics st))
                  - of_nat (total_tasks (tasks st)) / of_nat (users_with_tasks (tasks st))\<bar>
                \<le> 1 / 200)"
proof -
  let ?n = "total_tasks (tasks st)"
  let ?u = "total_users (users st)"
  let ?o = "users_with_tasks (tasks st)"
  have pm: "productivity_metrics st = productivity ?n ?u ?o" by (rule stats_metrics [OF run])
  have m1: "avg_tasks_per_user (productivity_metrics st)
              = (if 0 < ?u \<and> 0 < ?n then MRound2 ?n ?u else MZero)"
    by (simp add: pm productivity_def)
  have m2: "avg_tasks_per_active_user (productivity_metrics st)
              = (if 0 < ?o then MRound2 ?n ?o else MZero)"
    by (simp add: pm productivity_def)
  have hundredths: "\<And>m. \<exists>k. metric_value m = of_int k / 100"
  proof -
    fix m show "\<exists>k. metric_value m = of_int k / 100"
    proof (cases m)
      case MZero
      then have "metric_value m = of_int 0 / 100" by simp
      then show ?thesis by (rule exI)
    next
      case (MRound2 a b)
      then have "metric_value m = of_int (rhe (100 * true_div a b)) / 100"
        by (simp add: py_round2_def)
      then show ?thesis by (rule exI)
    qed
  qed
  have 3: "?u = 0 \<longrightarrow> metric_value (avg_tasks_per_user (productivity_metrics st)) = 0"
    by (simp add: m1)
  have 4: "?o = 0 \<longrightarrow> metric_value (avg_tasks_per_active_user (productivity_metrics st)) = 0"
    by (simp add: m2)
  have 5: "200 * ?n < 2 ^ 53 \<and> 0 < ?u
            \<longrightarrow> \<bar>metric_value (avg_tasks_per_user (productivity_metrics st))
                  - of_nat ?n / of_nat ?u\<bar> \<le> 1 / 200"
  proof
    assume h: "200 * ?n < 2 ^ 53 \<and> 0 < ?u"
    show "\<bar>metric_value (avg_tasks_per_user (productivity_metrics st))
                  - of_nat ?n / of_nat ?u\<bar> \<le> 1 / 200"
    proof (cases "0 < ?n")
      case True
      with h have "avg_tasks_per_user (productivity_metrics st) = MRound2 ?n ?u"
        by (simp add: m1)
      then show ?thesis using py_round2_nearest [of ?u ?n] h by simp
    next
      case False
      then show ?thesis by (simp add: m1)
    qed
  qed
  have 6: "200 * ?n < 2 ^ 53 \<and> 0 < ?o
            \<longrightarrow> \<bar>metric_value (avg_tasks_per_active_user (productivity_metrics st))
                  - of_nat ?n / of_nat ?o\<bar> \<le> 1 / 200"
  proof
    assume h: "200 * ?n < 2 ^ 53 \<and> 0 < ?o"
    then have "avg_tasks_per_active_user (productivity_metrics st) = MRound2 ?n ?o"
      by (simp add: m2)
    then show "\<bar>metric_value (avg_tasks_per_active_user (productivity_metrics st))
                  - of_nat ?n / of_nat ?o\<bar> \<le> 1 / 200"
      using py_round2_nearest [of ?o ?n] h by simp
  qed
  from hundredths [of "avg_tasks_per_user (productivity_metrics st)"]
       hundredths [of "avg_tasks_per_active_user (productivity_metrics st)"] 3 4 5 6
  show ?thesis by (intro conjI)
qed

theorem metrics_rounded_witness:
  "200 * (6::nat) < 2 ^ 53 \<and> (0::nat) < 4
   \<and> (\<exists>st. get_task_stats None ''t''
               (PeerResponse 200 (Json (JArr [JNull, JNull, JNull, JNull]))) store_w
             = (Stats st, 200)
          \<and> total_tasks (tasks st) = 6 \<and> total_users (users st) = 4
          \<and> \<bar>metric_value (avg_tasks_per_user (productivity_metrics st)) - 6 / 4\<bar> \<le> 1 / 200)"
proof -
  obtain st where run: "get_task_stats None ''t''
               (PeerResponse 200 (Json (JArr [JNull, JNull, JNull, JNull]))) store_w
             = (Stats st, 200)"
    using stats_ok [of None "''t''" "PeerResponse 200 (Json (JArr [JNull, JNull, JNull, JNull]))"
        store_w]
    by (auto simp: raises_at_def)
  have n: "total_tasks (tasks st) = 6"
    using run by (auto simp: get_task_stats_def Let_def store_w_def split: if_splits)
  have u: "total_users (users st) = 4"
    using stats_sections(3) [OF run] by (simp add: user_service_stats_def)
  note all = metrics_rounded [OF run]
  have "200 * total_tasks (tasks st) < 2 ^ 53 \<and> 0 < total_users (users st)
            \<longrightarrow> \<bar>metric_value (avg_tasks_per_user (productivity_metrics st))
                  - of_nat (total_tasks (tasks st)) / of_nat (total_users (users st))\<bar>
                \<le> 1 / 200"
    using all by (elim conjE)
  then have near: "\<bar>metric_value (avg_tasks_per_user (productivity_metrics st)) - 6 / 4\<bar>
      \<le> 1 / 200"
    by (simp add: n u)
  have h1: "200 * (6::nat) < 2 ^ 53" by simp
  have h2: "(0::nat) < 4" by simp
  show ?thesis
    by (intro conjI h1 h2) (rule exI [of _ st], intro conjI run n u near)
qed

section \<open>GET /tasks/stats: recent tasks\<close>

lemma order_by_id_desc_strict:
  assumes "distinct (map task_id s)"
  shows "sorted_wrt (\<lambda>a b. task_id a > task_id b) (order_by_id_desc s)"
proof -
  let ?o = "order_by_id_desc s"
  have s: "sorted (map (\<lambda>t. - task_id t) ?o)"
    by (simp add: order_by_id_desc_def)
  have d: "distinct (map (\<lambda>t. - task_id t) ?o)"
    using assms by (simp add: order_by_id_desc_def distinct_map inj_on_def)
  from s d have "sorted_wrt (<) (map (\<lambda>t. - task_id t) ?o)"
    by (simp add: strict_sorted_iff)
  then show ?thesis by (simp add: sorted_wrt_map)
qed

text \<open>
  C5.  In every snapshot \<^verbatim>\<open>recent_tasks\<close> holds \<open>min 5 n\<close> rows of a table of
  \<open>n\<close> rows (ids being unique, as a primary key is): they are rows of the
  table, without repetition, listed by strictly descending id, and every row
  of the table that is left out has a smaller id than each row listed.
\<close>

theorem recent_tasks_largest_ids:
  assumes run: "get_task_stats f now r s = (Stats st, code)"
      and key: "distinct (map task_id s)"
  shows "length (recent_tasks (tasks st)) = min 5 (length s)
       \<and> set (recent_tasks (tasks st)) \<subseteq> set s
       \<and> distinct (recent_tasks (tasks st))
       \<and> sorted_wrt (\<lambda>a b. task_id a > task_id b) (recent_tasks (tasks st))
       \<and> (\<forall>t \<in> set s. t \<notin> set (recent_tasks (tasks st)) \<longrightarrow>
            (\<forall>x \<in> set (recent_tasks (tasks st)). task_id t < task_id x))"
proof -
  let ?o = "order_by_id_desc s"
  let ?r = "recent_tasks (tasks st)"
  have r: "?r = take 5 ?o" using stats_sections(1) [OF run] by (simp add: limit_def)
  have so: "set ?o = set s" and lo: "length ?o = length s"
    by (simp_all add: order_by_id_desc_def)
  have st: "sorted_wrt (\<lambda>a b. task_id a > task_id b) ?o"
    by (rule order_by_id_desc_strict [OF key])
  have split: "?o = take 5 ?o @ drop 5 ?o" by simp
  have d: "distinct ?o" using key by (simp add: order_by_id_desc_def distinct_map)
  have 1: "length ?r = min 5 (length s)" using r lo by simp
  have 2: "set ?r \<subseteq> set s" using r so set_take_subset by metis
  have 3: "distinct ?r" using r d by simp
  have 4: "sorted_wrt (\<lambda>a b. task_id a > task_id b) ?r"
    using r st by simp
  have 5: "\<forall>t \<in> set s. t \<notin> set ?r \<longrightarrow> (\<forall>x \<in> set ?r. task_id t < task_id x)"
  proof (intro ballI impI)
    fix t x assume t: "t \<in> set s" "t \<notin> set ?r" and x: "x \<in> set ?r"
    have "set ?o = set (take 5 ?o) \<union> set (drop 5 ?o)"
      by (metis append_take_drop_id set_append)
    with t so r have td: "t \<in> set (drop 5 ?o)" by auto
    from st have "sorted_wrt (\<lambda>a b. task_id a > task_id b) (take 5 ?o @ drop 5 ?o)" by simp
    then have "\<forall>a \<in> set (take 5 ?o). \<forall>b \<in> set (drop 5 ?o). task_id a > task_id b"
      unfolding sorted_wrt_append by blast
    with td x r show "task_id t < task_id x" by auto
  qed
  from 1 2 3 4 5 show ?thesis by blast
qed

theorem recent_tasks_largest_ids_witness:
  "distinct (map task_id store_w)
   \<and> (\<exists>st. get_task_stats None ''t'' (PeerRaises ''x'') store_w = (Stats st, 200)
          \<and> map task_id (recent_tasks (tasks st)) = [6, 5, 4, 3, 2]
          \<and> length (recent_tasks (tasks st)) = min 5 (length store_w)
          \<and> sorted_wrt (\<lambda>a b. task_id a > task_id b) (recent_tasks (tasks st)))"
proof -
  have key: "distinct (map task_id store_w)" by (simp add: store_w_def)
  obtain st where run: "get_task_stats None ''t'' (PeerRaises ''x'') store_w = (Stats st, 200)"
    using stats_ok [of None "''t''" "PeerRaises ''x''" store_w] by (auto simp: raises_at_def)
  have ids: "map task_id (recent_tasks (tasks st)) = [6, 5, 4, 3, 2]"
    using stats_sections(1) [OF run] by (simp add: store_w_def limit_def order_by_id_desc_def)
  note all = recent_tasks_largest_ids [OF run key]
  have len: "length (recent_tasks (tasks st)) = min 5 (length store_w)"
    using all by (rule conjunct1)
  have srt: "sorted_wrt (\<lambda>a b. task_id a > task_id b) (recent_tasks (tasks st))"
    using all by (elim conjE)
  show ?thesis
    by (rule conjI [OF key]) (rule exI [of _ st], intro conjI run ids len srt)
qed

section \<open>Bulk deletes\<close>

lemma visible_flush: "visible (flush ss) = visible ss"
  by (simp add: visible_def flush_def)

lemma visible_begin: "visible (begin_session s) = s"
  by (simp add: visible_def flush_def begin_session_def)

lemma find_id: "find (\<lambda>t. task_id t = i) xs = Some t \<Longrightarrow> task_id t = i \<and> t \<in> set xs"
  by (auto simp: find_Some_iff)

lemma query_get_visible: "query_get ss i = (r, ss') \<Longrightarrow> visible ss' = visible ss"
  by (auto simp: query_get_def Let_def visible_def flush_def split: option.splits)

lemma query_get_some: "query_get ss i = (Some t, ss') \<Longrightarrow> task_id t = i"
  by (auto simp: query_get_def Let_def split: option.splits dest: find_id)

lemma query_get_none:
  "query_get ss i = (None, ss') \<Longrightarrow> i \<notin> task_id ` set (visible ss)"
  by (auto simp: query_get_def Let_def visible_def flush_def find_None_iff split: option.splits)

lemma session_delete_visible:
  "visible (session_delete ss t) = filter (\<lambda>x. task_id x \<noteq> task_id t) (visible ss)"
  by (auto simp: session_delete_def visible_def flush_def intro!: filter_cong)

lemma delete_each_ok:
  assumes "\<forall>j. f = Some j \<longrightarrow> j < k \<or> k + length ids \<le> j"
  shows "\<exists>ss' n'. delete_each f k ids ss n = Inr (ss', n', k + length ids)
           \<and> visible ss' = filter (\<lambda>t. task_id t \<notin> set ids) (visible ss)"
  using assms
proof (induction ids arbitrary: k ss n)
  case Nil
  then show ?case by simp
next
  case (Cons i ids)
  have nf: "\<not> raises_at f k" using Cons.prems by (auto simp: raises_at_def)
  have nx: "\<forall>j. f = Some j \<longrightarrow> j < Suc k \<or> Suc k + length ids \<le> j"
    using Cons.prems by auto
  obtain r ss1 where g: "query_get ss i = (r, ss1)" by (cases "query_get ss i")
  show ?case
  proof (cases r)
    case None
    from Cons.IH [OF nx, of ss1 n] obtain ss' n' where
      h: "delete_each f (Suc k) ids ss1 n = Inr (ss', n', Suc k + length ids)"
         "visible ss' = filter (\<lambda>t. task_id t \<notin> set ids) (visible ss1)" by blast
    have "i \<notin> task_id ` set (visible ss)" using g None query_get_none by blast
    then have "filter (\<lambda>t. task_id t \<notin> set (i # ids)) (visible ss)
                 = filter (\<lambda>t. task_id t \<notin> set ids) (visible ss)"
      by (auto intro!: filter_cong)
    with h g None nf query_get_visible [OF g] show ?thesis by simp
  next
    case (Some t)
    from Cons.IH [OF nx, of "session_delete ss1 t" "Suc n"] obtain ss' n' where
      h: "delete_each f (Suc k) ids (session_delete ss1 t) (Suc n) = Inr (ss', n', Suc k + length ids)"
         "visible ss' = filter (\<lambda>x. task_id x \<notin> set ids) (visible (session_delete ss1 t))" by blast
    have ti: "task_id t = i" using g Some query_get_some by blast
    have "filter (\<lambda>x. task_id x \<notin> set ids) (visible (session_delete ss1 t))
            = filter (\<lambda>x. task_id x \<notin> set (i # ids)) (visible ss)"
      using query_get_visible [OF g] ti by (auto simp: session_delete_visible intro!: filter_cong)
    with h g Some nf show ?thesis by simp
  qed
qed

lemma delete_each_raises:
  assumes "f = Some j" "k \<le> j" "j < k + length ids"
  shows "\<exists>ss'. delete_each f k ids ss n = Inl ss'"
  using assms
proof (induction ids arbitrary: k ss n)
  case Nil
  then show ?case by simp
next
  case (Cons i ids)
  show ?case
  proof (cases "j = k")
    case True
    then show ?thesis using Cons.prems by (simp add: raises_at_def)
  next
    case False
    then have nf: "\<not> raises_at f k" using Cons.prems by (simp add: raises_at_def)
    have r: "Suc k \<le> j" "j < Suc k + length ids" using False Cons.prems by auto
    obtain r ss1 where g: "query_get ss i = (r, ss1)" by (cases "query_get ss i")
    show ?thesis
      using nf g Cons.IH [OF Cons.prems(1) r] by (cases r) auto
  qed
qed

text \<open>
  C9.  \<^verbatim>\<open>DELETE /tasks/cleanup\<close>: when one of its two store calls raises, the
  answer is 500 and the table is as before; otherwise the answer is 200 and the
  table is empty.  \<^verbatim>\<open>DELETE /tasks/cleanup-specific\<close> with a list of ids: when
  one of its store calls raises (the look-up of the \<open>j\<close>-th id, or the commit,
  which is call number \<open>length ids\<close>), the answer is 500 and the table is as
  before, whatever had been marked for deletion; otherwise the answer is 200
  and the table has lost, in one step, exactly the rows whose id is listed.
\<close>

theorem bulk_delete_atomic:
  "(cleanup_tasks f s =
      (if f = Some 0 \<or> f = Some 1 then ((ErrException, 500), s)
       else ((MsgDeleted (length s), 200), [])))
   \<and> ((\<exists>j. f = Some j \<and> j \<le> length ids) \<longrightarrow>
        cleanup_specific_tasks f s (Some (IdList ids)) = ((ErrException, 500), s))
   \<and> (\<not> (\<exists>j. f = Some j \<and> j \<le> length ids) \<longrightarrow>
        (\<exists>n. cleanup_specific_tasks f s (Some (IdList ids))
               = ((MsgDeletedSpecific n, 200), filter (\<lambda>t. task_id t \<notin> set ids) s)))"
proof (intro conjI impI)
  show "cleanup_tasks f s =
      (if f = Some 0 \<or> f = Some 1 then ((ErrException, 500), s)
       else ((MsgDeleted (length s), 200), []))"
    by (simp add: cleanup_tasks_def Let_def raises_at_def query_delete_def begin_session_def
          flush_def commit_def rollback_def)
next
  assume "\<exists>j. f = Some j \<and> j \<le> length ids"
  then obtain j where j: "f = Some j" "j \<le> length ids" by blast
  show "cleanup_specific_tasks f s (Some (IdList ids)) = ((ErrException, 500), s)"
  proof (cases "j < length ids")
    case True
    with delete_each_raises [OF j(1), of 0 ids "begin_session s" 0]
    obtain ss' where "delete_each f 0 ids (begin_session s) 0 = Inl ss'" by auto
    then show ?thesis by (simp add: cleanup_specific_tasks_def rollback_def)
  next
    case False
    then have e: "j = length ids" using j by simp
    then have "\<forall>j'. f = Some j' \<longrightarrow> j' < 0 \<or> 0 + length ids \<le> j'" using j by simp
    from delete_each_ok [OF this, of "begin_session s" 0] obtain ss' n' where
      "delete_each f 0 ids (begin_session s) 0 = Inr (ss', n', length ids)" by auto
    then show ?thesis using j e by (simp add: cleanup_specific_tasks_def rollback_def raises_at_def)
  qed
next
  assume a: "\<not> (\<exists>j. f = Some j \<and> j \<le> length ids)"
  then have "\<forall>j'. f = Some j' \<longrightarrow> j' < 0 \<or> 0 + length ids \<le> j'" by auto
  from delete_each_ok [OF this, of "begin_session s" 0] obtain ss' n' where
    h: "delete_each f 0 ids (begin_session s) 0 = Inr (ss', n', length ids)"
       "visible ss' = filter (\<lambda>t. task_id t \<notin> set ids) (visible (begin_session s))" by auto
  have "\<not> raises_at f (length ids)" using a by (auto simp: raises_at_def)
  with h show "\<exists>n. cleanup_specific_tasks f s (Some (IdList ids))
               = ((MsgDeletedSpecific n, 200), filter (\<lambda>t. task_id t \<notin> set ids) s)"
    by (simp add: cleanup_specific_tasks_def commit_def visible_def [symmetric] visible_begin)
qed

theorem bulk_delete_atomic_witness:
  "cleanup_tasks (Some 1) store_w = ((ErrException, 500), store_w)
   \<and> cleanup_tasks None store_w = ((MsgDeleted 6, 200), [])
   \<and> (\<exists>j. Some (1::nat) = Some j \<and> j \<le> length [2, 40, 5::int])
   \<and> cleanup_specific_tasks (Some 1) store_w (Some (IdList [2, 40, 5]))
        = ((ErrException, 500), store_w)
   \<and> \<not> (\<exists>j. (None :: fault) = Some j \<and> j \<le> length [2, 40, 5::int])
   \<and> (\<exists>n. cleanup_specific_tasks None store_w (Some (IdList [2, 40, 5]))
          = ((MsgDeletedSpecific n, 200), filter (\<lambda>t. task_id t \<notin> set [2, 40, 5]) store_w))"
proof -
  have l: "length store_w = 6" by (simp add: store_w_def)
  have a: "\<exists>j. Some (1::nat) = Some j \<and> j \<le> length [2, 40, 5::int]" by simp
  have b: "\<not> (\<exists>j. (None :: fault) = Some j \<and> j \<le> length [2, 40, 5::int])" by simp
  from bulk_delete_atomic [of "Some 1" store_w "[2, 40, 5]"] a
  have c: "cleanup_tasks (Some 1) store_w = ((ErrException, 500), store_w)"
    and d: "cleanup_specific_tasks (Some 1) store_w (Some (IdList [2, 40, 5]))
        = ((ErrException, 500), store_w)"
    by simp_all
  from bulk_delete_atomic [of None store_w "[2, 40, 5]"] b l
  have e: "cleanup_tasks None store_w = ((MsgDeleted 6, 200), [])"
    and g: "\<exists>n. cleanup_specific_tasks None store_w (Some (IdList [2, 40, 5]))
          = ((MsgDeletedSpecific n, 200), filter (\<lambda>t. task_id t \<notin> set [2, 40, 5]) store_w)"
    by simp_all
  from a b c d e g show ?thesis by blast
qed

text \<open>
  For a list without repeated ids the handler deletes exactly the listed rows
  and reports the number of listed ids that were in the table.
\<close>

lemma query_get_miss:
  assumes "i \<notin> task_id ` set (loaded ss)"
  shows "query_get ss i =
           (case find (\<lambda>t. task_id t = i) (visible ss) of
              Some t \<Rightarrow> (Some t, (flush ss)\<lparr>loaded := loaded (flush ss) @ [t]\<rparr>)
            | None \<Rightarrow> (None, flush ss))"
proof -
  have "find (\<lambda>t. task_id t = i) (loaded ss) = None"
    using assms by (auto simp: find_None_iff)
  then show ?thesis by (simp add: query_get_def Let_def visible_def)
qed

lemma loaded_flush: "set (loaded (flush ss)) \<subseteq> set (loaded ss)"
  by (auto simp: flush_def)

lemma loaded_session_delete: "loaded (session_delete ss t) = loaded ss"
  by (simp add: session_delete_def)

lemma find_present:
  "(\<exists>t. find (\<lambda>t. task_id t = i) xs = Some t) \<longleftrightarrow> i \<in> task_id ` set xs"
  by (cases "find (\<lambda>t. task_id t = i) xs") (auto simp: find_None_iff find_Some_iff)

lemma delete_each_count:
  assumes "distinct ids" "set ids \<inter> task_id ` set (loaded ss) = {}"
      and "delete_each None k ids ss n = Inr (ss', n', k')"
  shows "n' = n + length (filter (\<lambda>i. i \<in> task_id ` set (visible ss)) ids)"
  using assms
proof (induction ids arbitrary: k ss n)
  case Nil
  then show ?case by simp
next
  case (Cons i ids)
  have miss: "i \<notin> task_id ` set (loaded ss)" using Cons.prems(2) by auto
  have d: "distinct ids" and ni: "i \<notin> set ids" using Cons.prems(1) by auto
  show ?case
  proof (cases "find (\<lambda>t. task_id t = i) (visible ss)")
    case None
    then have absent: "i \<notin> task_id ` set (visible ss)" using find_present [of i "visible ss"] by simp
    have g: "query_get ss i = (None, flush ss)" using query_get_miss [OF miss] None by simp
    have dis: "set ids \<inter> task_id ` set (loaded (flush ss)) = {}"
      using Cons.prems(2) loaded_flush [of ss] by auto
    have run: "delete_each None (Suc k) ids (flush ss) n = Inr (ss', n', k')"
      using Cons.prems(3) g by (simp add: raises_at_def)
    from Cons.IH [OF d dis run] absent show ?thesis by (simp add: visible_flush)
  next
    case (Some t)
    then have present: "i \<in> task_id ` set (visible ss)" using find_present [of i "visible ss"] by auto
    have ti: "task_id t = i" using Some by (auto simp: find_Some_iff)
    let ?s1 = "(flush ss)\<lparr>loaded := loaded (flush ss) @ [t]\<rparr>"
    have g: "query_get ss i = (Some t, ?s1)" using query_get_miss [OF miss] Some by simp
    have dis: "set ids \<inter> task_id ` set (loaded (session_delete ?s1 t)) = {}"
      using Cons.prems(2) loaded_flush [of ss] ni ti by (auto simp: loaded_session_delete)
    have run: "delete_each None (Suc k) ids (session_delete ?s1 t) (Suc n) = Inr (ss', n', k')"
      using Cons.prems(3) g by (simp add: raises_at_def)
    have v: "visible (session_delete ?s1 t) = filter (\<lambda>x. task_id x \<noteq> i) (visible ss)"
      using query_get_visible [OF g] ti by (simp add: session_delete_visible)
    have "filter (\<lambda>j. j \<in> task_id ` set (visible (session_delete ?s1 t))) ids
            = filter (\<lambda>j. j \<in> task_id ` set (visible ss)) ids"
      using ni unfolding v by (intro filter_cong) auto
    with Cons.IH [OF d dis run] present show ?thesis by simp
  qed
qed

lemma cleanup_specific_distinct_count:
  assumes "distinct ids"
  shows "cleanup_specific_tasks None s (Some (IdList ids))
           = ((MsgDeletedSpecific (length (filter (\<lambda>i. i \<in> task_id ` set s) ids)), 200),
              filter (\<lambda>t. task_id t \<notin> set ids) s)"
proof -
  have "\<forall>j. (None :: fault) = Some j \<longrightarrow> j < 0 \<or> 0 + length ids \<le> j" by simp
  from delete_each_ok [where f = None and k = 0 and ids = ids and ss = "begin_session s" and n = 0,
      OF this] obtain ss' n' where
    h: "delete_each None 0 ids (begin_session s) 0 = Inr (ss', n', 0 + length ids)"
       "visible ss' = filter (\<lambda>t. task_id t \<notin> set ids) (visible (begin_session s))" by blast
  have "set ids \<inter> task_id ` set (loaded (begin_session s)) = {}"
    by (simp add: begin_session_def)
  from delete_each_count [OF assms this h(1)]
  have "n' = length (filter (\<lambda>i. i \<in> task_id ` set s) ids)" by (simp add: visible_begin)
  with h show ?thesis
    by (simp add: cleanup_specific_tasks_def commit_def visible_def [symmetric] visible_begin
          raises_at_def)
qed

text \<open>
  C7.  The reported count is the number of loop iterations that found a task,
  not the number of tasks deleted: an id listed twice in a row is found twice,
  the second time in the identity map, where the object marked for deletion
  still is.  With the one task 1 in the table and the list \<^verbatim>\<open>[1, 1]\<close> the
  handler deletes one task and reports two.
\<close>

theorem duplicate_ids_counted_twice:
  "cleanup_specific_tasks None [\<lparr>task_id = 1, title = ''a'', user_id = SqlInt 7\<rparr>] (Some (IdList [1, 1]))
     = ((MsgDeletedSpecific 2, 200), [])"
  by (simp add: cleanup_specific_tasks_def raises_at_def begin_session_def query_get_def
        flush_def session_delete_def commit_def Let_def)

section \<open>GET /tasks/stats: the most productive users\<close>

text \<open>The counter: its keys, in the order of first occurrence, and its counts.\<close>

lemma counter_add_keys:
  "map fst (counter_add u acc) = (if u \<in> fst ` set acc then map fst acc else map fst acc @ [u])"
  by (induction u acc rule: counter_add.induct) (auto simp: image_iff)

lemma counter_add_map_of:
  "map_of (counter_add u acc) =
     (map_of acc)(u \<mapsto> (case map_of acc u of None \<Rightarrow> 1 | Some c \<Rightarrow> Suc c))"
  by (induction u acc rule: counter_add.induct) (auto simp: fun_eq_iff)

lemma Counter_snoc: "Counter (us @ [u]) = counter_add u (Counter us)"
  by (simp add: Counter_def)

lemma Counter_keys_set: "fst ` set (Counter us) = set us"
proof (induction us rule: rev_induct)
  case Nil
  then show ?case by (simp add: Counter_def)
next
  case (snoc u us)
  have "set (map fst (Counter (us @ [u]))) = set (us @ [u])"
    unfolding Counter_snoc counter_add_keys using snoc by auto
  then show ?case by simp
qed

lemma Counter_keys_distinct: "distinct (map fst (Counter us))"
proof (induction us rule: rev_induct)
  case Nil
  then show ?case by (simp add: Counter_def)
next
  case (snoc u us)
  then show ?case unfolding Counter_snoc counter_add_keys by auto
qed

lemma Counter_map_of:
  "map_of (Counter us) u = (if u \<in> set us then Some (length (filter (\<lambda>x. x = u) us)) else None)"
proof (induction us rule: rev_induct)
  case Nil
  then show ?case by (simp add: Counter_def)
next
  case (snoc v us)
  show ?case
  proof (cases "u = v")
    case False
    then show ?thesis using snoc by (simp add: Counter_snoc counter_add_map_of)
  next
    case True
    show ?thesis
    proof (cases "v \<in> set us")
      case True
      with snoc \<open>u = v\<close> show ?thesis by (simp add: Counter_snoc counter_add_map_of)
    next
      case False
      then have "filter (\<lambda>x. x = v) us = []" by (auto simp: filter_empty_conv)
      with False snoc \<open>u = v\<close> show ?thesis by (simp add: Counter_snoc counter_add_map_of)
    qed
  qed
qed

lemma Counter_in:
  "(u, c) \<in> set (Counter us) \<longleftrightarrow> u \<in> set us \<and> c = length (filter (\<lambda>x. x = u) us)"
proof -
  have "(u, c) \<in> set (Counter us) \<longleftrightarrow> map_of (Counter us) u = Some c"
    using Counter_keys_distinct [of us] by simp
  then show ?thesis by (auto simp: Counter_map_of)
qed

lemma first_pos_snoc_in: "x \<in> set us \<Longrightarrow> first_pos (us @ [u]) x = first_pos us x"
  by (simp add: first_pos_def takeWhile_append1)

lemma first_pos_in_less: "x \<in> set us \<Longrightarrow> first_pos us x < length us"
  unfolding first_pos_def by (induction us) auto

lemma first_pos_snoc_new: "u \<notin> set us \<Longrightarrow> first_pos (us @ [u]) u = length us"
  unfolding first_pos_def by (induction us) auto

lemma Counter_keys_order:
  "sorted_wrt (\<lambda>a b. first_pos us a < first_pos us b) (map fst (Counter us))"
proof (induction us rule: rev_induct)
  case Nil
  then show ?case by (simp add: Counter_def)
next
  case (snoc u us)
  have ks: "set (map fst (Counter us)) = set us" using Counter_keys_set [of us] by simp
  have old: "sorted_wrt (\<lambda>a b. first_pos (us @ [u]) a < first_pos (us @ [u]) b) (map fst (Counter us))"
  proof (rule sorted_wrt_mono_rel [OF _ snoc])
    fix a b assume "a \<in> set (map fst (Counter us))" "b \<in> set (map fst (Counter us))"
      "first_pos us a < first_pos us b"
    then show "first_pos (us @ [u]) a < first_pos (us @ [u]) b"
      using ks by (simp add: first_pos_snoc_in)
  qed
  show ?case
  proof (cases "u \<in> set us")
    case True
    then show ?thesis unfolding Counter_snoc counter_add_keys using old Counter_keys_set [of us] by simp
  next
    case False
    have "\<forall>x \<in> set (map fst (Counter us)). first_pos (us @ [u]) x < first_pos (us @ [u]) u"
      using ks False first_pos_snoc_in first_pos_in_less first_pos_snoc_new by auto
    then show ?thesis unfolding Counter_snoc counter_add_keys
      using old False Counter_keys_set [of us] by (simp add: sorted_wrt_append)
  qed
qed

text \<open>\<open>sort_key\<close> keeps the order of elements with equal keys.\<close>

lemma insort_key_stable:
  fixes f :: "'a \<Rightarrow> 'k::linorder"
  assumes "sorted_wrt (\<lambda>a b. f a < f b \<or> (f a = f b \<and> P a b)) ys"
      and "\<forall>y \<in> set ys. P x y"
  shows "sorted_wrt (\<lambda>a b. f a < f b \<or> (f a = f b \<and> P a b)) (insort_key f x ys)"
  using assms
proof (induction ys)
  case Nil
  then show ?case by simp
next
  case (Cons y ys)
  show ?case
  proof (cases "f x \<le> f y")
    case True
    have "\<forall>z \<in> set ys. f y \<le> f z" using Cons.prems(1) by auto
    then have "\<forall>z \<in> set (y # ys). f x < f z \<or> (f x = f z \<and> P x z)"
      using True Cons.prems(2) by fastforce
    then show ?thesis using True Cons.prems(1) by simp
  next
    case False
    then have "f y < f x" by simp
    moreover have "sorted_wrt (\<lambda>a b. f a < f b \<or> (f a = f b \<and> P a b)) (insort_key f x ys)"
      using Cons by simp
    ultimately show ?thesis using False Cons.prems(1) by (auto simp: set_insort_key)
  qed
qed

lemma sort_key_stable_wrt:
  fixes f :: "'a \<Rightarrow> 'k::linorder"
  assumes "sorted_wrt P xs"
  shows "sorted_wrt (\<lambda>a b. f a < f b \<or> (f a = f b \<and> P a b)) (sort_key f xs)"
  using assms
proof (induction xs)
  case Nil
  then show ?case by simp
next
  case (Cons x xs)
  have "sorted_wrt (\<lambda>a b. f a < f b \<or> (f a = f b \<and> P a b)) (sort_key f xs)"
    using Cons by simp
  moreover have "\<forall>y \<in> set (sort_key f xs). P x y" using Cons.prems by simp
  ultimately show ?case by (simp add: insort_key_stable)
qed

lemma count_tasks_map: "count_tasks s u = length (filter (\<lambda>x. x = u) (map user_id s))"
  by (simp add: count_tasks_def filter_map comp_def)

lemma first_seen_map: "first_seen s u = first_pos (map user_id s) u"
  by (simp add: first_seen_def first_pos_def takeWhile_map comp_def)

lemma count_tasks_pos: "0 < count_tasks s u \<longleftrightarrow> u \<in> user_id ` set s"
  by (auto simp: count_tasks_def filter_empty_conv)

lemma ranked_items:
  "sorted_wrt (\<lambda>a b. ranks_above s (fst a) (fst b))
     (sort_key (\<lambda>p. - int (snd p)) (Counter (map user_id s)))"
proof -
  let ?us = "map user_id s"
  let ?C = "Counter ?us"
  let ?f = "\<lambda>p :: sql_value \<times> nat. - int (snd p)"
  let ?P = "\<lambda>a b :: sql_value \<times> nat. first_pos ?us (fst a) < first_pos ?us (fst b)"
  have "sorted_wrt ?P ?C"
    using Counter_keys_order [of ?us] by (simp add: sorted_wrt_map)
  then have st: "sorted_wrt (\<lambda>a b. ?f a < ?f b \<or> (?f a = ?f b \<and> ?P a b)) (sort_key ?f ?C)"
    by (rule sort_key_stable_wrt)
  show ?thesis
  proof (rule sorted_wrt_mono_rel [OF _ st])
    fix a b
    assume a: "a \<in> set (sort_key ?f ?C)" and b: "b \<in> set (sort_key ?f ?C)"
      and r: "?f a < ?f b \<or> (?f a = ?f b \<and> ?P a b)"
    have ca: "snd a = count_tasks s (fst a)"
      using a Counter_in [of "fst a" "snd a" ?us] by (simp add: count_tasks_map)
    have cb: "snd b = count_tasks s (fst b)"
      using b Counter_in [of "fst b" "snd b" ?us] by (simp add: count_tasks_map)
    from r ca cb show "ranks_above s (fst a) (fst b)"
      by (auto simp: ranks_above_def first_seen_map)
  qed
qed

lemma Counter_length: "length (Counter us) = card (set us)"
proof -
  have "length (Counter us) = length (map fst (Counter us))" by simp
  also have "\<dots> = card (set (map fst (Counter us)))"
    using Counter_keys_distinct [of us] by (simp only: distinct_card)
  also have "\<dots> = card (set us)" using Counter_keys_set [of us] by simp
  finally show ?thesis .
qed

lemma sorted_items_keys_distinct:
  "distinct (map fst (sort_key (\<lambda>p. - int (snd p)) (Counter us)))"
  using Counter_keys_distinct [of us] by (simp add: distinct_map)


text \<open>
  C4, as the code has it.  The claim's last clause promises that an owner with
  \<open>N\<close> tasks is listed whenever another owner has none.  With three owners of
  two tasks each in the table, owner 4 has one task, owner 5 has none, and
  owner 4 is not listed: the list stops after three entries.
\<close>

theorem fourth_owner_not_listed:
  "get_task_stats None ''t'' (PeerRaises ''x'') store_c
     = (Stats \<lparr>timestamp = ''t'',
               tasks = \<lparr>total_tasks = 7, users_with_tasks = 4,
                        recent_tasks =
                          [\<lparr>task_id = 7, title = ''g'', user_id = SqlInt 4\<rparr>,
                           \<lparr>task_id = 6, title = ''f'', user_id = SqlInt 3\<rparr>,
                           \<lparr>task_id = 5, title = ''e'', user_id = SqlInt 3\<rparr>,
                           \<lparr>task_id = 4, title = ''d'', user_id = SqlInt 2\<rparr>,
                           \<lparr>task_id = 3, title = ''c'', user_id = SqlInt 2\<rparr>],
                        top_productive_users =
                          [(SqlInt 1, 2), (SqlInt 2, 2), (SqlInt 3, 2)]\<rparr>,
               users = \<lparr>total_users = 0, error = Some ''User service unavailable: x''\<rparr>,
               productivity_metrics =
                 \<lparr>avg_tasks_per_user = MZero, avg_tasks_per_active_user = MRound2 7 4\<rparr>,
               system = \<lparr>status = ''partial'', task_service = ''online'',
                         user_service = ''offline''\<rparr>\<rparr>,
        200)
   \<and> count_tasks store_c (SqlInt 4) = 1
   \<and> count_tasks store_c (SqlInt 5) = 0"
  by (simp add: get_task_stats_def Let_def raises_at_def user_service_stats_def unavailable_def
        system_of_def productivity_def store_c_def Counter_def most_common_def limit_def
        order_by_id_desc_def count_tasks_def)

text \<open>
  C4, amended.  In every snapshot \<^verbatim>\<open>top_productive_users\<close> has \<open>min 3 k\<close> entries for a
  table with \<open>k\<close> owners.  The entries are distinct owners of the table, each
  with exactly its number of tasks (which is positive).  They are listed in
  ranking order: more tasks first, and among owners with equally many tasks
  the one whose first task comes first in the table.  Every owner left out is
  ranked below every owner listed.  In particular, when owner \<open>a\<close> has
  \<open>n > 0\<close> tasks, \<open>b\<close> has none and the table has at most three owners, the
  entry \<open>(a, n)\<close> is listed and \<open>b\<close> is not listed at all.
\<close>

theorem top_productive_users_ranking:
  assumes run: "get_task_stats f now r s = (Stats st, code)"
  shows "length (top_productive_users (tasks st)) = min 3 (card (user_id ` set s))
       \<and> distinct (map fst (top_productive_users (tasks st)))
       \<and> (\<forall>p \<in> set (top_productive_users (tasks st)).
             fst p \<in> user_id ` set s \<and> snd p = count_tasks s (fst p) \<and> 0 < snd p)
       \<and> sorted_wrt (\<lambda>a b. ranks_above s (fst a) (fst b)) (top_productive_users (tasks st))
       \<and> (\<forall>v \<in> user_id ` set s. v \<notin> fst ` set (top_productive_users (tasks st)) \<longrightarrow>
             (\<forall>u \<in> fst ` set (top_productive_users (tasks st)). ranks_above s u v))
       \<and> (\<forall>a b n. count_tasks s a = n \<and> 0 < n \<and> count_tasks s b = 0
                  \<and> card (user_id ` set s) \<le> 3
             \<longrightarrow> (a, n) \<in> set (top_productive_users (tasks st))
                 \<and> b \<notin> fst ` set (top_productive_users (tasks st)))"
proof -
  let ?us = "map user_id s"
  let ?C = "Counter ?us"
  let ?S = "sort_key (\<lambda>p. - int (snd p)) ?C"
  let ?top = "top_productive_users (tasks st)"
  have top: "?top = take 3 ?S"
    using stats_sections(2) [OF run] by (simp add: most_common_def)
  have setS: "set ?S = set ?C" by simp
  have lenS: "length ?S = card (user_id ` set s)" by (simp add: Counter_length)
  have sub: "set ?top \<subseteq> set ?C" using top setS set_take_subset by metis
  have inC: "\<And>p. p \<in> set ?C \<Longrightarrow>
      fst p \<in> user_id ` set s \<and> snd p = count_tasks s (fst p) \<and> 0 < snd p"
  proof -
    fix p assume "p \<in> set ?C"
    then have "fst p \<in> set ?us \<and> snd p = count_tasks s (fst p)"
      using Counter_in [of "fst p" "snd p" ?us] by (simp add: count_tasks_map)
    then show "fst p \<in> user_id ` set s \<and> snd p = count_tasks s (fst p) \<and> 0 < snd p"
      using count_tasks_pos [of s "fst p"] by simp
  qed
  have rk: "sorted_wrt (\<lambda>a b. ranks_above s (fst a) (fst b)) ?S" by (rule ranked_items)
  have 1: "length ?top = min 3 (card (user_id ` set s))" using top lenS by simp
  have 2: "distinct (map fst ?top)"
    using sorted_items_keys_distinct [of ?us] top by (simp add: take_map [symmetric])
  have 3: "\<forall>p \<in> set ?top. fst p \<in> user_id ` set s \<and> snd p = count_tasks s (fst p) \<and> 0 < snd p"
    using sub inC by blast
  have 4: "sorted_wrt (\<lambda>a b. ranks_above s (fst a) (fst b)) ?top"
    using rk top by simp
  have 5: "\<forall>v \<in> user_id ` set s. v \<notin> fst ` set ?top \<longrightarrow>
             (\<forall>u \<in> fst ` set ?top. ranks_above s u v)"
  proof (intro ballI impI)
    fix v u assume v: "v \<in> user_id ` set s" "v \<notin> fst ` set ?top" and u: "u \<in> fst ` set ?top"
    from v(1) have "(v, count_tasks s v) \<in> set ?C"
      using Counter_in [of v "count_tasks s v" ?us] by (simp add: count_tasks_map)
    then have "(v, count_tasks s v) \<in> set ?S" by simp
    moreover have "set ?S = set (take 3 ?S) \<union> set (drop 3 ?S)"
      by (metis append_take_drop_id set_append)
    moreover have "(v, count_tasks s v) \<notin> set (take 3 ?S)"
      using v(2) top by (metis fst_conv image_eqI)
    ultimately have vd: "(v, count_tasks s v) \<in> set (drop 3 ?S)" by blast
    from u top obtain p where p: "p \<in> set (take 3 ?S)" "fst p = u" by auto
    from rk have "sorted_wrt (\<lambda>a b. ranks_above s (fst a) (fst b)) (take 3 ?S @ drop 3 ?S)"
      by simp
    then have "\<forall>a \<in> set (take 3 ?S). \<forall>b \<in> set (drop 3 ?S). ranks_above s (fst a) (fst b)"
      unfolding sorted_wrt_append by blast
    with p vd show "ranks_above s u v" by fastforce
  qed
  have 6: "\<forall>a b n. count_tasks s a = n \<and> 0 < n \<and> count_tasks s b = 0
                  \<and> card (user_id ` set s) \<le> 3
             \<longrightarrow> (a, n) \<in> set ?top \<and> b \<notin> fst ` set ?top"
  proof (intro allI impI)
    fix a b n
    assume h: "count_tasks s a = n \<and> 0 < n \<and> count_tasks s b = 0 \<and> card (user_id ` set s) \<le> 3"
    then have all: "?top = ?S" using top lenS by simp
    from h have "a \<in> user_id ` set s" using count_tasks_pos [of s a] by simp
    then have "(a, n) \<in> set ?C"
      using h Counter_in [of a n ?us] by (simp add: count_tasks_map)
    then have A: "(a, n) \<in> set ?top" using all by simp
    have B: "b \<notin> fst ` set ?top"
    proof
      assume "b \<in> fst ` set ?top"
      then obtain p where "p \<in> set ?top" "fst p = b" by auto
      with 3 have "0 < count_tasks s b" by fastforce
      with h show False by simp
    qed
    from A B show "(a, n) \<in> set ?top \<and> b \<notin> fst ` set ?top" ..
  qed
  from 1 2 3 4 5 6 show ?thesis by (intro conjI)
qed

theorem top_productive_users_ranking_witness:
  "count_tasks store_w (SqlInt 8) = 3 \<and> (0::nat) < 3 \<and> count_tasks store_w (SqlInt 5) = 0
   \<and> card (user_id ` set store_w) \<le> 3
   \<and> (\<exists>st. get_task_stats None ''t'' (PeerRaises ''x'') store_w = (Stats st, 200)
          \<and> top_productive_users (tasks st) = [(SqlInt 8, 3), (SqlInt 7, 2), (SqlInt 9, 1)]
          \<and> (SqlInt 8, 3) \<in> set (top_productive_users (tasks st))
          \<and> SqlInt 5 \<notin> fst ` set (top_productive_users (tasks st))
          \<and> sorted_wrt (\<lambda>a b. ranks_above store_w (fst a) (fst b))
                (top_productive_users (tasks st)))"
proof -
  obtain st where run: "get_task_stats None ''t'' (PeerRaises ''x'') store_w = (Stats st, 200)"
    using stats_ok [of None "''t''" "PeerRaises ''x''" store_w] by (auto simp: raises_at_def)
  have c8: "count_tasks store_w (SqlInt 8) = 3" by (simp add: count_tasks_def store_w_def)
  have c5: "count_tasks store_w (SqlInt 5) = 0" by (simp add: count_tasks_def store_w_def)
  have "user_id ` set store_w = {SqlInt 7, SqlInt 8, SqlInt 9}" by (auto simp: store_w_def)
  then have cd: "card (user_id ` set store_w) \<le> 3" by simp
  have top: "top_productive_users (tasks st) = [(SqlInt 8, 3), (SqlInt 7, 2), (SqlInt 9, 1)]"
    using stats_sections(2) [OF run] by (simp add: store_w_def most_common_def Counter_def)
  note all = top_productive_users_ranking [OF run]
  have srt: "sorted_wrt (\<lambda>a b. ranks_above store_w (fst a) (fst b))
                (top_productive_users (tasks st))"
    using all by (elim conjE)
  have part: "\<forall>a b n. count_tasks store_w a = n \<and> 0 < n \<and> count_tasks store_w b = 0
                  \<and> card (user_id ` set store_w) \<le> 3
             \<longrightarrow> (a, n) \<in> set (top_productive_users (tasks st))
                 \<and> b \<notin> fst ` set (top_productive_users (tasks st))"
    using all by (elim conjE)
  have hyp: "count_tasks store_w (SqlInt 8) = 3 \<and> (0::nat) < 3 \<and> count_tasks store_w (SqlInt 5) = 0
      \<and> card (user_id ` set store_w) \<le> 3"
    using c8 c5 cd by simp
  from part [rule_format, OF hyp]
  have inn: "(SqlInt 8, 3) \<in> set (top_productive_users (tasks st))"
    and out: "SqlInt 5 \<notin> fst ` set (top_productive_users (tasks st))"
    by (rule conjunct1, rule conjunct2)
  show ?thesis
    by (intro conjI c8 c5 cd) (simp, rule exI [of _ st], intro conjI run top inn out srt)
qed

end
